theory Spec2Isabelle
  imports Main "HOL-Library.Word"
begin

unbundle bit_operations_syntax

section \<open>Data model\<close>

text \<open>
  The Go types \<open>uint8\<close> and \<open>int8\<close> are both eight bits wide. A conversion between them
  (\<open>int8(x)\<close>, \<open>uint8(x)\<close>) keeps the bit pattern, so both are \<open>8 word\<close> here: an
  unsigned value is read with \<open>unat\<close>/\<open>uint\<close> and compared with \<open>\<le>\<close>, a signed one is read
  with \<open>sint\<close>. \<open>int8(i)\<close> of a slice index \<open>i\<close> keeps the low eight bits: \<open>of_nat i\<close>.
\<close>

type_synonym uint8 = "8 word"
type_synonym int8 = "8 word"

text \<open>
  \<open>StateMoveMessage\<close>. A slice may be \<open>nil\<close>, which the server tests for
  (\<open>GameState == nil\<close>): the field is an option, \<open>None\<close> for \<open>nil\<close>.
\<close>

record StateMoveMessage =
  GameState :: "uint8 list option"
  MoveRow :: int8
  MoveCount :: int8

text \<open>Reading a slice that may be \<open>nil\<close>: \<open>len\<close> is 0 and \<open>range\<close> runs no iteration.\<close>

definition slice_of :: "uint8 list option \<Rightarrow> uint8 list" where
  "slice_of g = (case g of None \<Rightarrow> [] | Some b \<Rightarrow> b)"

text \<open>
  The ways a call can end without a value: \<open>normalMove\<close>'s error return, the dereference of
  the \<open>nil\<close> pointer that comes with it, \<open>CheckErr\<close>'s \<open>os.Exit(1)\<close>, and an index out of
  range.
\<close>

datatype error = NoMoveToMake | NilDereference | ProcessExit | IndexOutOfRange

section \<open>Board functions of the server\<close>

text \<open>\<open>emptyBoard\<close>: the loop leaves at the first pile that is not 0.\<close>

fun emptyBoard :: "uint8 list \<Rightarrow> bool" where
  "emptyBoard [] = True"
| "emptyBoard (v # vs) = (if v \<noteq> 0 then False else emptyBoard vs)"

text \<open>\<open>nimSum\<close>: \<open>sum ^= v\<close> over the piles, from \<open>sum = 0\<close> (the variable is \<open>nsum\<close> here).\<close>

fun nimSum_loop :: "uint8 \<Rightarrow> uint8 list \<Rightarrow> uint8" where
  "nimSum_loop nsum [] = nsum"
| "nimSum_loop nsum (v # vs) = nimSum_loop (nsum XOR v) vs"

definition nimSum :: "uint8 list \<Rightarrow> uint8" where
  "nimSum board = nimSum_loop 0 board"

text \<open>
  \<open>normalMove\<close>: the first pile above 0 loses one. The Go code writes into the slice it was
  given and returns that slice; the model returns the updated list.
\<close>

function normalMove_loop :: "uint8 list \<Rightarrow> nat \<Rightarrow> error + StateMoveMessage" where
  "normalMove_loop board i =
     (if i < length board then
        (if board ! i > 0 then
           Inr \<lparr>GameState = Some (board[i := board ! i - 1]),
                MoveRow = of_nat i, MoveCount = 1\<rparr>
         else normalMove_loop board (Suc i))
      else Inl NoMoveToMake)"
  by pat_completeness auto
termination
  by (relation "measure (\<lambda>(board, i). length board - i)") auto

declare normalMove_loop.simps [simp del]

definition normalMove :: "uint8 list \<Rightarrow> error + StateMoveMessage" where
  "normalMove board = normalMove_loop board 0"

text \<open>
  \<open>bestMove\<close>: with a nim-sum other than 0, the first pile \<open>v\<close> with \<open>sum ^ v <= v\<close> is set
  to \<open>sum ^ v\<close>; otherwise, and when the search finds no pile, \<open>normalMove\<close>, whose error
  ends the process in \<open>CheckErr\<close>.
\<close>

function bestMove_loop :: "uint8 \<Rightarrow> uint8 list \<Rightarrow> nat \<Rightarrow> StateMoveMessage option" where
  "bestMove_loop nsum board i =
     (if i < length board then
        (let v = board ! i; tmp = nsum XOR v in
         if tmp \<le> v then
           Some \<lparr>GameState = Some (board[i := tmp]),
                 MoveRow = of_nat i, MoveCount = v - tmp\<rparr>
         else bestMove_loop nsum board (Suc i))
      else None)"
  by pat_completeness auto
termination
  by (relation "measure (\<lambda>(nsum, board, i). length board - i)") auto

declare bestMove_loop.simps [simp del]

definition bestMove :: "uint8 list \<Rightarrow> error + StateMoveMessage" where
  "bestMove board =
     (let nsum = nimSum board in
      case (if nsum \<noteq> 0 then bestMove_loop nsum board 0 else None) of
        Some m \<Rightarrow> Inr m
      | None \<Rightarrow>
          (case normalMove board of
             Inl e \<Rightarrow> Inl ProcessExit
           | Inr move \<Rightarrow> Inr move))"

text \<open>
  \<open>Play\<close>: the resignation message on a board of zeros, \<open>bestMove\<close> in mode 1, else
  \<open>normalMove\<close>, whose error is printed before the \<open>nil\<close> pointer is dereferenced.
\<close>

definition Play :: "StateMoveMessage \<Rightarrow> int8 \<Rightarrow> error + StateMoveMessage" where
  "Play move mode =
     (let board = slice_of (GameState move) in
      if emptyBoard board then
        Inr \<lparr>GameState = None, MoveRow = - 2, MoveCount = - 2\<rparr>
      else if mode = 1 then bestMove board
      else
        (case normalMove board of
           Inl e \<Rightarrow> Inl NilDereference
         | Inr nextMove \<Rightarrow> Inr nextMove))"

text \<open>
  \<open>CheckMove\<close>: the sanity checks, then the loop over the piles. \<open>MoveRow\<close> and \<open>MoveCount\<close>
  are compared as signed numbers; \<open>int8(lastboard[i])\<close> and \<open>uint8(incmove.MoveCount)\<close>
  keep the bits. The boards have the same length when the loop starts, so no index is out
  of range.
\<close>

function CheckMove_loop ::
  "uint8 list \<Rightarrow> uint8 list \<Rightarrow> int8 \<Rightarrow> int8 \<Rightarrow> nat \<Rightarrow> bool" where
  "CheckMove_loop incboard lastboard row cnt i =
     (if i < length incboard then
        (if incboard ! i = lastboard ! i then
           CheckMove_loop incboard lastboard row cnt (Suc i)
         else if int i = sint row \<and> 0 < sint cnt \<and> sint cnt \<le> sint (lastboard ! i) \<and>
                 incboard ! i = lastboard ! i - cnt then
           CheckMove_loop incboard lastboard row cnt (Suc i)
         else False)
      else True)"
  by pat_completeness auto
termination
  by (relation "measure (\<lambda>(incboard, lastboard, row, cnt, i). length incboard - i)") auto

declare CheckMove_loop.simps [simp del]

definition CheckMove :: "StateMoveMessage \<Rightarrow> StateMoveMessage \<Rightarrow> bool" where
  "CheckMove incmove lastmove =
     (let lastboard = slice_of (GameState lastmove);
          incboard = slice_of (GameState incmove) in
      if length lastboard \<noteq> length incboard \<or>
         sint (MoveRow incmove) < 0 \<or>
         sint (MoveRow incmove) \<ge> int (length incboard)
      then False
      else CheckMove_loop incboard lastboard (MoveRow incmove) (MoveCount incmove) 0)"

text \<open>
  \<open>GenerateBoard\<close>. \<open>math/rand\<close> is Go's library, not code of this repository: the
  generator is a parameter \<open>rnd\<close>, where \<open>rnd seed k n\<close> is what the call number \<open>k\<close>
  (from 0) of \<open>rand.Intn(n)\<close> returns after \<open>rand.Seed(seed)\<close>. The library promises a
  result below \<open>n\<close>; theorems that need the promise assume it.
\<close>

type_synonym rand_source = "int \<Rightarrow> nat \<Rightarrow> nat \<Rightarrow> nat"

definition Intn_ok :: "rand_source \<Rightarrow> int \<Rightarrow> bool" where
  "Intn_ok rnd seed = (\<forall>k n. 0 < n \<longrightarrow> rnd seed k n < n)"

function GenerateBoard_fill :: "rand_source \<Rightarrow> int \<Rightarrow> nat \<Rightarrow> uint8 list \<Rightarrow> nat \<Rightarrow> uint8 list" where
  "GenerateBoard_fill rnd seed numRows board i =
     (if i < numRows then
        (let numCoins = rnd seed (Suc i) 10 + 1 in
         GenerateBoard_fill rnd seed numRows (board[i := of_nat numCoins]) (Suc i))
      else board)"
  by pat_completeness auto
termination
  by (relation "measure (\<lambda>(rnd, seed, numRows, board, i). numRows - i)") auto

declare GenerateBoard_fill.simps [simp del]

definition GenerateBoard :: "rand_source \<Rightarrow> int \<Rightarrow> uint8 list" where
  "GenerateBoard rnd seed =
     (let numRows = rnd seed 0 14 + 3;
          board = GenerateBoard_fill rnd seed numRows (replicate numRows 0) 0 in
      if nimSum board = 0 then
        (if board ! (numRows - 1) < 10
         then board[numRows - 1 := board ! (numRows - 1) + 1]
         else board[numRows - 1 := board ! (numRows - 1) - 1])
      else board)"

section \<open>The server's request handler\<close>

text \<open>
  The two maps of \<open>main\<close>, keyed by the sender's address: the last message sent to the
  client and the client's difficulty.
\<close>

record server_state =
  clientGames :: "string \<rightharpoonup> StateMoveMessage"
  clientDifficulties :: "string \<rightharpoonup> int8"

text \<open>Reading a Go map at a key it does not hold gives the zero value.\<close>

definition difficulty_of :: "server_state \<Rightarrow> string \<Rightarrow> int8" where
  "difficulty_of st raddrStr =
     (case clientDifficulties st raddrStr of None \<Rightarrow> 0 | Some d \<Rightarrow> d)"

text \<open>
  One turn of the loop of \<open>main\<close>, from the decoded \<open>clientMove\<close> on: the new maps and
  the reply, \<open>None\<close> where the loop goes on without sending. A panic or exit inside
  \<open>Play\<close> ends the server: \<open>Inl\<close>. \<open>int64(seed)\<close> is the signed value of the \<open>int8\<close>.
\<close>

definition handle ::
  "rand_source \<Rightarrow> server_state \<Rightarrow> string \<Rightarrow> StateMoveMessage \<Rightarrow>
   error + (server_state \<times> StateMoveMessage option)" where
  "handle rnd st raddrStr clientMove =
     (if GameState clientMove = None \<and> MoveRow clientMove = - 1 then
        (let seed = MoveCount clientMove;
             newGameState = GenerateBoard rnd (sint seed);
             servMove = \<lparr>GameState = Some newGameState, MoveRow = - 1, MoveCount = seed\<rparr>
         in Inr (st\<lparr>clientGames := (clientGames st)(raddrStr \<mapsto> servMove),
                    clientDifficulties := (clientDifficulties st)(raddrStr \<mapsto> seed AND 1)\<rparr>,
                 Some servMove))
      else
        (case clientGames st raddrStr of
           None \<Rightarrow> Inr (st, None)
         | Some lastMove \<Rightarrow>
             (if \<not> CheckMove clientMove lastMove then
                Inr (st\<lparr>clientGames := (clientGames st)(raddrStr \<mapsto> lastMove)\<rparr>,
                     Some lastMove)
              else
                (case Play clientMove (difficulty_of st raddrStr) of
                   Inl e \<Rightarrow> Inl e
                 | Inr servMove \<Rightarrow>
                     Inr (st\<lparr>clientGames := (clientGames st)(raddrStr \<mapsto> servMove)\<rparr>,
                          Some servMove)))))"

section \<open>The client's check of a reply\<close>

text \<open>
  \<open>isValidSuccessor\<close> of \<open>NewClient/Client.go\<close>: for every index of \<open>state\<close> it reads
  \<open>move.GameState[idx]\<close>, which panics when the reply's board ends before \<open>idx\<close>.
\<close>

function isValidSuccessor_loop ::
  "uint8 list \<Rightarrow> StateMoveMessage \<Rightarrow> nat \<Rightarrow> error + bool" where
  "isValidSuccessor_loop state move idx =
     (if idx < length state then
        (let elm = state ! idx; gs = slice_of (GameState move) in
         if int idx = sint (MoveRow move) then
           (if idx \<ge> length gs then Inl IndexOutOfRange
            else if elm - MoveCount move \<noteq> gs ! idx then Inr False
            else isValidSuccessor_loop state move (Suc idx))
         else
           (if idx \<ge> length gs then Inl IndexOutOfRange
            else if elm \<noteq> gs ! idx then Inr False
            else isValidSuccessor_loop state move (Suc idx)))
      else Inr True)"
  by pat_completeness auto
termination
  by (relation "measure (\<lambda>(state, move, idx). length state - idx)") auto

declare isValidSuccessor_loop.simps [simp del]

definition isValidSuccessor :: "uint8 list \<Rightarrow> StateMoveMessage \<Rightarrow> error + bool" where
  "isValidSuccessor state move = isValidSuccessor_loop state move 0"

section \<open>Sample inputs\<close>

text \<open>A generator that keeps the library's promise, for the concrete runs below.\<close>

definition sample_rand :: rand_source where
  "sample_rand seed k n = (nat \<bar>seed\<bar> + 3 * k) mod n"

text \<open>A stored last message and a session table that holds it, for the concrete runs.\<close>

definition sample_last :: StateMoveMessage where
  "sample_last = \<lparr>GameState = Some [3, 4, 5], MoveRow = - 1, MoveCount = 5\<rparr>"

definition sample_state :: "StateMoveMessage \<Rightarrow> server_state" where
  "sample_state lastMove =
     \<lparr>clientGames = [''client'' \<mapsto> lastMove], clientDifficulties = [''client'' \<mapsto> 1]\<rparr>"

section \<open>Nim-sum and the search for a pile\<close>

lemma nimSum_loop_acc: "nimSum_loop a xs = a XOR nimSum_loop 0 xs"
proof (induction xs arbitrary: a)
  case Nil show ?case by simp
next
  case (Cons v vs)
  have "nimSum_loop a (v # vs) = (a XOR v) XOR nimSum_loop 0 vs"
    using Cons.IH [of "a XOR v"] by simp
  moreover have "nimSum_loop 0 (v # vs) = v XOR nimSum_loop 0 vs"
    using Cons.IH [of v] by simp
  ultimately show ?case by (simp add: xor.assoc)
qed

lemma nimSum_Nil: "nimSum [] = 0"
  by (simp add: nimSum_def)

lemma nimSum_Cons: "nimSum (v # vs) = v XOR nimSum vs"
  using nimSum_loop_acc [of v vs] by (simp add: nimSum_def)

lemma bit_nimSum: "bit (nimSum xs) k \<Longrightarrow> \<exists>v \<in> set xs. bit v k"
  by (induction xs) (auto simp: nimSum_Cons nimSum_Nil bit_xor_iff)

lemma nimSum_update:
  "i < length board \<Longrightarrow> nimSum (board[i := x]) = nimSum board XOR board ! i XOR x"
proof (induction board arbitrary: i)
  case Nil then show ?case by simp
next
  case (Cons v vs)
  show ?case
  proof (cases i)
    case 0
    then show ?thesis by (simp add: nimSum_Cons xor.commute xor.left_commute)
  next
    case (Suc j)
    then show ?thesis using Cons by (simp add: nimSum_Cons xor.assoc)
  qed
qed

lemma xor_high_bit_less:
  fixes v s :: nat
  assumes "bit s k" "s < 2 ^ Suc k" "bit v k"
  shows "v XOR s < v"
proof -
  have ds: "drop_bit (Suc k) s = 0"
    using assms(2) by (simp add: drop_bit_eq_div)
  have v_eq: "v = push_bit (Suc k) (drop_bit (Suc k) v) + (2 ^ k + take_bit k v)"
    using bits_ident [of "Suc k" v] assms(3) by (simp add: take_bit_Suc_from_most)
  have nb: "\<not> bit (v XOR s) k"
    using assms(1,3) by (simp add: bit_xor_iff)
  have t: "take_bit (Suc k) (v XOR s) = take_bit k (v XOR s)"
    using nb take_bit_Suc_from_most [of k "v XOR s"] by simp
  have d: "drop_bit (Suc k) (v XOR s) = drop_bit (Suc k) v"
    using ds by simp
  have x_eq: "v XOR s = push_bit (Suc k) (drop_bit (Suc k) v) + take_bit k (v XOR s)"
    using bits_ident [of "Suc k" "v XOR s"] by (simp only: t d)
  have "take_bit k (v XOR s) < 2 ^ k" by (rule take_bit_nat_less_exp)
  then show ?thesis using v_eq x_eq by linarith
qed

lemma nat_high_bit:
  fixes n :: nat
  shows "n \<noteq> 0 \<Longrightarrow> \<exists>k. bit n k \<and> n < 2 ^ Suc k"
proof (induction n rule: less_induct)
  case (less n)
  show ?case
  proof (cases "n div 2 = 0")
    case True
    with less.prems have "n = 1" by linarith
    then have "bit n 0 \<and> n < 2 ^ Suc 0" by (simp add: bit_0)
    then show ?thesis by blast
  next
    case False
    moreover have "n div 2 < n" using less.prems by simp
    ultimately obtain k where k: "bit (n div 2) k" "n div 2 < 2 ^ Suc k"
      using less.IH by blast
    have "bit n (Suc k)" using k(1) by (simp add: bit_Suc)
    moreover have "n < 2 ^ Suc (Suc k)" using k(2) by simp
    ultimately show ?thesis by blast
  qed
qed

lemma word_xor_high_bit_less:
  fixes v s :: "8 word"
  assumes "bit s k" "unat s < 2 ^ Suc k" "bit v k"
  shows "s XOR v < v"
proof -
  have "bit (unat s) k" "bit (unat v) k"
    using assms(1,3) by (simp_all add: bit_unsigned_iff)
  then have "unat v XOR unat s < unat v"
    using assms(2) by (rule_tac xor_high_bit_less) 
  moreover have "unat (s XOR v) = unat v XOR unat s"
    by (simp add: unsigned_xor_eq xor.commute)
  ultimately show ?thesis by (simp add: word_less_nat_alt)
qed

lemma candidate_exists:
  assumes "nimSum board \<noteq> 0"
  shows "\<exists>i < length board. nimSum board XOR board ! i < board ! i"
proof -
  have "unat (nimSum board) \<noteq> 0" using assms by (simp add: unat_eq_0)
  then obtain k where k: "bit (unat (nimSum board)) k" "unat (nimSum board) < 2 ^ Suc k"
    using nat_high_bit by blast
  have bk: "bit (nimSum board) k" using k(1) by (simp add: bit_unsigned_iff)
  then obtain v where v: "v \<in> set board" "bit v k" using bit_nimSum by blast
  then obtain i where i: "i < length board" "board ! i = v" by (auto simp: in_set_conv_nth)
  have "nimSum board XOR v < v" using bk k(2) v(2) by (rule word_xor_high_bit_less)
  then show ?thesis using i by blast
qed

section \<open>What the move loops return\<close>

lemma emptyBoard_iff: "emptyBoard board \<longleftrightarrow> (\<forall>v \<in> set board. v = 0)"
  by (induction board) auto

lemma first_index:
  fixes P :: "nat \<Rightarrow> bool"
  assumes "i < n" "P i"
  shows "\<exists>j < n. P j \<and> (\<forall>k < j. \<not> P k)"
proof -
  define j where "j = (LEAST k. P k)"
  have "P j" unfolding j_def using assms(2) by (rule LeastI)
  moreover have "j \<le> i" unfolding j_def using assms(2) by (rule Least_le)
  moreover have "\<forall>k < j. \<not> P k" unfolding j_def using not_less_Least by blast
  moreover have "j < n" using \<open>j \<le> i\<close> assms(1) by simp
  ultimately show ?thesis by blast
qed

lemma bestMove_loop_found:
  assumes "j < length board" "nsum XOR board ! j \<le> board ! j"
    and "\<forall>k. i \<le> k \<and> k < j \<longrightarrow> \<not> nsum XOR board ! k \<le> board ! k" "i \<le> j"
  shows "bestMove_loop nsum board i =
           Some \<lparr>GameState = Some (board[j := nsum XOR board ! j]),
                 MoveRow = of_nat j, MoveCount = board ! j - (nsum XOR board ! j)\<rparr>"
  using assms
proof (induction "j - i" arbitrary: i)
  case 0
  then have "i = j" by simp
  then show ?case using "0.prems"(1,2)
    by (subst bestMove_loop.simps) (simp add: Let_def)
next
  case (Suc d)
  then have lt: "i < j" by simp
  then have no: "\<not> nsum XOR board ! i \<le> board ! i" using Suc.prems(3) by simp
  have "bestMove_loop nsum board i = bestMove_loop nsum board (Suc i)"
    using lt Suc.prems(1) no by (subst bestMove_loop.simps) (simp add: Let_def)
  moreover have "bestMove_loop nsum board (Suc i) =
           Some \<lparr>GameState = Some (board[j := nsum XOR board ! j]),
                 MoveRow = of_nat j, MoveCount = board ! j - (nsum XOR board ! j)\<rparr>"
    using Suc.hyps(2) Suc.prems lt by (intro Suc.hyps(1)) auto
  ultimately show ?case by simp
qed

lemma normalMove_loop_found:
  assumes "j < length board" "board ! j \<noteq> 0"
    and "\<forall>k. i \<le> k \<and> k < j \<longrightarrow> board ! k = 0" "i \<le> j"
  shows "normalMove_loop board i =
           Inr \<lparr>GameState = Some (board[j := board ! j - 1]),
                MoveRow = of_nat j, MoveCount = 1\<rparr>"
  using assms
proof (induction "j - i" arbitrary: i)
  case 0
  then have "i = j" by simp
  then show ?case using "0.prems"(1,2)
    by (subst normalMove_loop.simps) (simp add: word_greater_zero_iff)
next
  case (Suc d)
  then have lt: "i < j" by simp
  then have no: "board ! i = 0" using Suc.prems(3) by simp
  have "normalMove_loop board i = normalMove_loop board (Suc i)"
    using lt Suc.prems(1) no by (subst normalMove_loop.simps) simp
  moreover have "normalMove_loop board (Suc i) =
           Inr \<lparr>GameState = Some (board[j := board ! j - 1]),
                MoveRow = of_nat j, MoveCount = 1\<rparr>"
    using Suc.hyps(2) Suc.prems lt by (intro Suc.hyps(1)) auto
  ultimately show ?case by simp
qed

lemma normalMove_found:
  assumes "\<not> emptyBoard board"
  shows "\<exists>j < length board. board ! j \<noteq> 0 \<and> (\<forall>k < j. board ! k = 0) \<and>
           normalMove board =
             Inr \<lparr>GameState = Some (board[j := board ! j - 1]),
                  MoveRow = of_nat j, MoveCount = 1\<rparr>"
proof -
  obtain i where "i < length board" "board ! i \<noteq> 0"
    using assms by (auto simp: emptyBoard_iff in_set_conv_nth)
  then obtain j where j: "j < length board" "board ! j \<noteq> 0" "\<forall>k < j. \<not> board ! k \<noteq> 0"
    using first_index [of i "length board" "\<lambda>k. board ! k \<noteq> 0"] by blast
  then have "normalMove board =
             Inr \<lparr>GameState = Some (board[j := board ! j - 1]),
                  MoveRow = of_nat j, MoveCount = 1\<rparr>"
    unfolding normalMove_def by (intro normalMove_loop_found) auto
  then show ?thesis using j by auto
qed

lemma bestMove_found:
  assumes "nimSum board \<noteq> 0"
  shows "\<exists>j < length board. nimSum board XOR board ! j < board ! j \<and>
           (\<forall>k < j. \<not> nimSum board XOR board ! k \<le> board ! k) \<and>
           bestMove board =
             Inr \<lparr>GameState = Some (board[j := nimSum board XOR board ! j]),
                  MoveRow = of_nat j,
                  MoveCount = board ! j - (nimSum board XOR board ! j)\<rparr>"
proof -
  obtain i where "i < length board" "nimSum board XOR board ! i \<le> board ! i"
    using candidate_exists [OF assms] by (auto simp: less_imp_le)
  then obtain j where j: "j < length board" "nimSum board XOR board ! j \<le> board ! j"
      "\<forall>k < j. \<not> nimSum board XOR board ! k \<le> board ! k"
    using first_index [of i "length board" "\<lambda>k. nimSum board XOR board ! k \<le> board ! k"]
    by blast
  have "nimSum board XOR board ! j \<noteq> board ! j"
    using assms by (metis xor.commute xor_self_eq bit.xor_left_self)
  then have lt: "nimSum board XOR board ! j < board ! j" using j(2) by simp
  have "bestMove_loop (nimSum board) board 0 =
           Some \<lparr>GameState = Some (board[j := nimSum board XOR board ! j]),
                 MoveRow = of_nat j,
                 MoveCount = board ! j - (nimSum board XOR board ! j)\<rparr>"
    using j by (intro bestMove_loop_found) auto
  then show ?thesis using j lt assms by (auto simp: bestMove_def Let_def)
qed

section \<open>Signed and unsigned readings; what \<open>CheckMove\<close> accepts\<close>

lemma sint_pos_uint:
  fixes c :: "8 word"
  assumes "0 < sint c"
  shows "sint c = uint c" and "uint c < 128"
proof -
  have lt: "sint c < 128" using sint_lt [of c] by simp
  have "uint c = take_bit 8 (sint c)" using uint_sint [of c] by simp
  also have "\<dots> = sint c" using assms lt by (intro take_bit_int_eq_self) simp_all
  finally show "sint c = uint c" by simp
  then show "uint c < 128" using lt by simp
qed


lemma accepted_amount:
  fixes c x :: "8 word"
  assumes "0 < sint c" "sint c \<le> sint x"
  shows "sint c = uint c" "uint c \<le> uint x" "uint x < 128" "sint x = uint x"
    "uint (x - c) = uint x - uint c"
proof -
  show c: "sint c = uint c" using assms(1) by (rule sint_pos_uint)
  have "0 < sint x" using assms by simp
  then show sx: "sint x = uint x" and "uint x < 128" by (rule sint_pos_uint)+
  show le: "uint c \<le> uint x" using assms(2) c sx by simp
  then show "uint (x - c) = uint x - uint c" by (simp add: uint_sub_if')
qed

lemma all_from_split:
  fixes P :: "nat \<Rightarrow> bool"
  assumes "i < n"
  shows "(\<forall>k. i \<le> k \<and> k < n \<longrightarrow> P k) \<longleftrightarrow> P i \<and> (\<forall>k. Suc i \<le> k \<and> k < n \<longrightarrow> P k)"
proof
  assume a: "\<forall>k. i \<le> k \<and> k < n \<longrightarrow> P k"
  then have "P i" using assms by simp
  moreover have "\<forall>k. Suc i \<le> k \<and> k < n \<longrightarrow> P k" using a by simp
  ultimately show "P i \<and> (\<forall>k. Suc i \<le> k \<and> k < n \<longrightarrow> P k)" by simp
next
  assume b: "P i \<and> (\<forall>k. Suc i \<le> k \<and> k < n \<longrightarrow> P k)"
  show "\<forall>k. i \<le> k \<and> k < n \<longrightarrow> P k"
  proof (intro allI impI)
    fix k assume k: "i \<le> k \<and> k < n"
    show "P k"
    proof (cases "k = i")
      case True then show ?thesis using b by simp
    next
      case False
      then have "Suc i \<le> k" using k by simp
      then show ?thesis using b k by simp
    qed
  qed
qed

lemma CheckMove_loop_iff:
  "CheckMove_loop incboard lastboard row cnt i \<longleftrightarrow>
     (\<forall>k. i \<le> k \<and> k < length incboard \<longrightarrow>
        incboard ! k = lastboard ! k \<or>
        (int k = sint row \<and> 0 < sint cnt \<and> sint cnt \<le> sint (lastboard ! k) \<and>
         incboard ! k = lastboard ! k - cnt))"
proof (induction incboard lastboard row cnt i rule: CheckMove_loop.induct)
  case (1 incboard lastboard row cnt i)
  let ?ok = "\<lambda>k. incboard ! k = lastboard ! k \<or>
        (int k = sint row \<and> 0 < sint cnt \<and> sint cnt \<le> sint (lastboard ! k) \<and>
         incboard ! k = lastboard ! k - cnt)"
  show ?case
  proof (cases "i < length incboard")
    case False
    then show ?thesis by (subst CheckMove_loop.simps) auto
  next
    case True
    have split: "(\<forall>k. i \<le> k \<and> k < length incboard \<longrightarrow> ?ok k) \<longleftrightarrow>
                 ?ok i \<and> (\<forall>k. Suc i \<le> k \<and> k < length incboard \<longrightarrow> ?ok k)"
      using True by (rule all_from_split)
    show ?thesis
    proof (cases "?ok i")
      case False
      then have "\<not> CheckMove_loop incboard lastboard row cnt i"
        using True by (subst CheckMove_loop.simps) auto
      then show ?thesis using False split by blast
    next
      case ok: True
      have "CheckMove_loop incboard lastboard row cnt i =
            CheckMove_loop incboard lastboard row cnt (Suc i)"
        using True ok by (subst CheckMove_loop.simps) auto
      moreover have "CheckMove_loop incboard lastboard row cnt (Suc i) \<longleftrightarrow>
            (\<forall>k. Suc i \<le> k \<and> k < length incboard \<longrightarrow> ?ok k)"
        using "1.IH" True ok by blast
      ultimately show ?thesis using ok split by blast
    qed
  qed
qed

lemma CheckMove_iff:
  "CheckMove incmove lastmove \<longleftrightarrow>
     length (slice_of (GameState lastmove)) = length (slice_of (GameState incmove)) \<and>
     0 \<le> sint (MoveRow incmove) \<and>
     sint (MoveRow incmove) < int (length (slice_of (GameState incmove))) \<and>
     (\<forall>k < length (slice_of (GameState incmove)).
        slice_of (GameState incmove) ! k = slice_of (GameState lastmove) ! k \<or>
        (int k = sint (MoveRow incmove) \<and> 0 < sint (MoveCount incmove) \<and>
         sint (MoveCount incmove) \<le> sint (slice_of (GameState lastmove) ! k) \<and>
         slice_of (GameState incmove) ! k =
           slice_of (GameState lastmove) ! k - MoveCount incmove))"
proof (cases "length (slice_of (GameState lastmove)) \<noteq> length (slice_of (GameState incmove)) \<or>
         sint (MoveRow incmove) < 0 \<or>
         sint (MoveRow incmove) \<ge> int (length (slice_of (GameState incmove)))")
  case True
  then have "\<not> CheckMove incmove lastmove" by (simp add: CheckMove_def Let_def)
  then show ?thesis using True by linarith
next
  case False
  then have "CheckMove incmove lastmove \<longleftrightarrow>
    CheckMove_loop (slice_of (GameState incmove)) (slice_of (GameState lastmove))
      (MoveRow incmove) (MoveCount incmove) 0"
    by (simp add: CheckMove_def Let_def)
  then show ?thesis using False unfolding CheckMove_loop_iff by simp
qed




section \<open>The shape of a strategy's move\<close>

lemma bestMove_zero_nimSum:
  assumes "nimSum board = 0"
  shows "bestMove board =
           (case normalMove board of Inl e \<Rightarrow> Inl ProcessExit | Inr move \<Rightarrow> Inr move)"
  using assms by (simp add: bestMove_def)

lemma strategy_shape:
  assumes "\<not> emptyBoard board"
  shows "\<exists>j < length board. \<exists>x. x < board ! j \<and>
           normalMove board =
             Inr \<lparr>GameState = Some (board[j := x]), MoveRow = of_nat j,
                  MoveCount = board ! j - x\<rparr>"
    and "\<exists>j < length board. \<exists>x. x < board ! j \<and>
           bestMove board =
             Inr \<lparr>GameState = Some (board[j := x]), MoveRow = of_nat j,
                  MoveCount = board ! j - x\<rparr>"
proof -
  obtain j where j: "j < length board" "board ! j \<noteq> 0"
      "normalMove board =
             Inr \<lparr>GameState = Some (board[j := board ! j - 1]),
                  MoveRow = of_nat j, MoveCount = 1\<rparr>"
    using normalMove_found [OF assms] by blast
  have lt: "board ! j - 1 < board ! j"
    using j(2) by (simp add: word_less_nat_alt unat_minus_one unat_gt_0)
  have one: "board ! j - (board ! j - 1) = 1" by simp
  show n: "\<exists>j < length board. \<exists>x. x < board ! j \<and>
           normalMove board =
             Inr \<lparr>GameState = Some (board[j := x]), MoveRow = of_nat j,
                  MoveCount = board ! j - x\<rparr>"
    using j(1) lt j(3) one by metis
  show "\<exists>j < length board. \<exists>x. x < board ! j \<and>
           bestMove board =
             Inr \<lparr>GameState = Some (board[j := x]), MoveRow = of_nat j,
                  MoveCount = board ! j - x\<rparr>"
  proof (cases "nimSum board = 0")
    case True
    obtain j x where "j < length board" "x < board ! j"
      "normalMove board =
             Inr \<lparr>GameState = Some (board[j := x]), MoveRow = of_nat j,
                  MoveCount = board ! j - x\<rparr>"
      using n by blast
    then show ?thesis using bestMove_zero_nimSum [OF True] by auto
  next
    case False
    then show ?thesis using bestMove_found [OF False] by blast
  qed
qed



section \<open>The handler's branches\<close>

lemma Play_resign:
  assumes "emptyBoard (slice_of (GameState m))"
  shows "Play m d = Inr \<lparr>GameState = None, MoveRow = - 2, MoveCount = - 2\<rparr>"
  using assms by (simp add: Play_def Let_def)

lemma Play_shape:
  assumes "\<not> emptyBoard (slice_of (GameState m))"
  shows "\<exists>j < length (slice_of (GameState m)). \<exists>x. x < slice_of (GameState m) ! j \<and>
           Play m d =
             Inr \<lparr>GameState = Some ((slice_of (GameState m))[j := x]), MoveRow = of_nat j,
                  MoveCount = slice_of (GameState m) ! j - x\<rparr>"
proof (cases "d = 1")
  case True
  then have "Play m d = bestMove (slice_of (GameState m))"
    using assms by (simp add: Play_def Let_def)
  then show ?thesis using strategy_shape(2) [OF assms] by simp
next
  case False
  obtain j x where jx: "j < length (slice_of (GameState m))" "x < slice_of (GameState m) ! j"
     "normalMove (slice_of (GameState m)) =
        Inr \<lparr>GameState = Some ((slice_of (GameState m))[j := x]), MoveRow = of_nat j,
             MoveCount = slice_of (GameState m) ! j - x\<rparr>"
    using strategy_shape(1) [OF assms] by blast
  have "Play m d = Inr \<lparr>GameState = Some ((slice_of (GameState m))[j := x]), MoveRow = of_nat j,
             MoveCount = slice_of (GameState m) ! j - x\<rparr>"
    using assms False jx(3) by (simp add: Play_def Let_def)
  then show ?thesis using jx(1,2) by blast
qed

lemma accepted_not_GameStart:
  assumes "CheckMove m L"
  shows "\<not> (GameState m = None \<and> MoveRow m = - 1)"
proof
  assume "GameState m = None \<and> MoveRow m = - 1"
  then have "sint (MoveRow m) = - 1" by simp
  moreover have "0 \<le> sint (MoveRow m)" using assms unfolding CheckMove_iff by blast
  ultimately show False by simp
qed

lemma accepted_pile_le:
  assumes "CheckMove m L" "k < length (slice_of (GameState m))"
  shows "slice_of (GameState m) ! k \<le> slice_of (GameState L) ! k"
proof -
  let ?inc = "slice_of (GameState m)" and ?last = "slice_of (GameState L)"
  have "?inc ! k = ?last ! k \<or>
        (0 < sint (MoveCount m) \<and> sint (MoveCount m) \<le> sint (?last ! k) \<and>
         ?inc ! k = ?last ! k - MoveCount m)"
    using assms unfolding CheckMove_iff by blast
  then show ?thesis
  proof
    assume "?inc ! k = ?last ! k" then show ?thesis by simp
  next
    assume a: "0 < sint (MoveCount m) \<and> sint (MoveCount m) \<le> sint (?last ! k) \<and>
         ?inc ! k = ?last ! k - MoveCount m"
    then have "uint (?last ! k - MoveCount m) = uint (?last ! k) - uint (MoveCount m)"
      using accepted_amount(5) by blast
    moreover have "0 \<le> uint (MoveCount m)" by simp
    ultimately have "uint (?last ! k - MoveCount m) \<le> uint (?last ! k)" by linarith
    then show ?thesis using a by (simp add: word_le_def)
  qed
qed

lemma reply_rejects_its_move:
  assumes "CheckMove m L0" "Play m d = Inr S"
  shows "\<not> CheckMove m S"
proof (cases "emptyBoard (slice_of (GameState m))")
  case True
  then have "GameState S = None" using assms(2) Play_resign [OF True, of d] by auto
  then have "length (slice_of (GameState S)) = 0" by (simp add: slice_of_def)
  moreover have "0 < length (slice_of (GameState m))"
    using assms(1) unfolding CheckMove_iff by linarith
  ultimately show ?thesis unfolding CheckMove_iff by simp
next
  case False
  let ?B = "slice_of (GameState m)"
  obtain j x where jx: "j < length ?B" "x < ?B ! j"
     "Play m d = Inr \<lparr>GameState = Some (?B[j := x]), MoveRow = of_nat j,
                  MoveCount = ?B ! j - x\<rparr>"
    using Play_shape [OF False, of d] by blast
  then have S: "slice_of (GameState S) = ?B[j := x]" using assms(2) by (auto simp: slice_of_def)
  show ?thesis
  proof
    assume "CheckMove m S"
    then have "?B ! j = slice_of (GameState S) ! j \<or>
        (0 < sint (MoveCount m) \<and> sint (MoveCount m) \<le> sint (slice_of (GameState S) ! j) \<and>
         ?B ! j = slice_of (GameState S) ! j - MoveCount m)"
      using jx(1) unfolding CheckMove_iff by blast
    then have "?B ! j = x \<or>
        (0 < sint (MoveCount m) \<and> sint (MoveCount m) \<le> sint x \<and> ?B ! j = x - MoveCount m)"
      using S jx(1) by simp
    then show False
    proof
      assume "?B ! j = x" then show False using jx(2) by simp
    next
      assume a: "0 < sint (MoveCount m) \<and> sint (MoveCount m) \<le> sint x \<and> ?B ! j = x - MoveCount m"
      then have "uint (x - MoveCount m) = uint x - uint (MoveCount m)"
        using accepted_amount(5) by blast
      moreover have "0 \<le> uint (MoveCount m)" by simp
      ultimately have "uint (x - MoveCount m) \<le> uint x" by linarith
      then have "?B ! j \<le> x" using a by (simp add: word_le_def)
      then show False using jx(2) by simp
    qed
  qed
qed

lemma handle_in_play:
  assumes "\<not> (GameState m = None \<and> MoveRow m = - 1)"
  shows "handle rnd st raddr m =
        (case clientGames st raddr of
           None \<Rightarrow> Inr (st, None)
         | Some lastMove \<Rightarrow>
             (if \<not> CheckMove m lastMove then
                Inr (st\<lparr>clientGames := (clientGames st)(raddr \<mapsto> lastMove)\<rparr>,
                     Some lastMove)
              else
                (case Play m (difficulty_of st raddr) of
                   Inl e \<Rightarrow> Inl e
                 | Inr servMove \<Rightarrow>
                     Inr (st\<lparr>clientGames := (clientGames st)(raddr \<mapsto> servMove)\<rparr>,
                          Some servMove))))"
  unfolding handle_def using assms by (rule if_not_P)

lemma handle_invalid:
  assumes "clientGames st raddr = Some L" "\<not> (GameState m = None \<and> MoveRow m = - 1)"
    "\<not> CheckMove m L"
  shows "handle rnd st raddr m = Inr (st, Some L)"
proof -
  have "(clientGames st)(raddr \<mapsto> L) = clientGames st"
    using assms(1) by (simp add: fun_upd_idem)
  then have "st\<lparr>clientGames := (clientGames st)(raddr \<mapsto> L)\<rparr> = st" by simp
  then show ?thesis using assms(1,3) by (simp add: handle_in_play [OF assms(2)])
qed

lemma handle_valid:
  assumes "clientGames st raddr = Some L" "CheckMove m L"
    "Play m (difficulty_of st raddr) = Inr S"
  shows "handle rnd st raddr m =
           Inr (st\<lparr>clientGames := (clientGames st)(raddr \<mapsto> S)\<rparr>, Some S)"
  using assms by (simp add: handle_in_play [OF accepted_not_GameStart [OF assms(2)]])

section \<open>The generated board\<close>

lemma GenerateBoard_fill_length:
  "length (GenerateBoard_fill rnd seed numRows board i) = length board"
proof (induction rnd seed numRows board i rule: GenerateBoard_fill.induct)
  case (1 rnd seed numRows board i)
  show ?case
  proof (cases "i < numRows")
    case True
    then show ?thesis using 1 by (subst GenerateBoard_fill.simps) (simp add: Let_def)
  next
    case False
    then show ?thesis by (subst GenerateBoard_fill.simps) simp
  qed
qed

lemma GenerateBoard_fill_nth:
  assumes "length board = numRows" "k < numRows"
  shows "GenerateBoard_fill rnd seed numRows board i ! k =
           (if i \<le> k then of_nat (rnd seed (Suc k) 10 + 1) else board ! k)"
  using assms
proof (induction rnd seed numRows board i rule: GenerateBoard_fill.induct)
  case (1 rnd seed numRows board i)
  show ?case
  proof (cases "i < numRows")
    case True
    let ?b = "board[i := of_nat (rnd seed (Suc i) 10 + 1)]"
    have step: "GenerateBoard_fill rnd seed numRows board i =
                GenerateBoard_fill rnd seed numRows ?b (Suc i)"
      using True by (subst GenerateBoard_fill.simps) (simp add: Let_def)
    have "GenerateBoard_fill rnd seed numRows ?b (Suc i) ! k =
           (if Suc i \<le> k then of_nat (rnd seed (Suc k) 10 + 1) else ?b ! k)"
      using "1.IH" [OF True refl] "1.prems" by simp
    moreover have "?b ! k = (if k = i then of_nat (rnd seed (Suc k) 10 + 1) else board ! k)"
      using "1.prems" by (simp add: nth_list_update)
    moreover have "i \<le> k \<longleftrightarrow> k = i \<or> Suc i \<le> k" by auto
    ultimately show ?thesis using step by (simp only: split: if_splits) auto
  next
    case False
    then show ?thesis using "1.prems" by (subst GenerateBoard_fill.simps) simp
  qed
qed

lemma unat_of_nat_small:
  assumes "n < 256"
  shows "unat (of_nat n :: uint8) = n"
  using assms by (simp add: unat_of_nat)

lemma coins_in_range:
  assumes "r < 10"
  shows "1 \<le> (of_nat (r + 1) :: uint8)" and "(of_nat (r + 1) :: uint8) \<le> 10"
proof -
  have "r + 1 < 256" using assms by simp
  then have u: "unat (of_nat (r + 1) :: uint8) = r + 1" by (rule unat_of_nat_small)
  have "unat (1 :: uint8) \<le> unat (of_nat (r + 1) :: uint8)" unfolding u by simp
  then show "1 \<le> (of_nat (r + 1) :: uint8)" by (simp only: word_le_nat_alt)
  have "unat (of_nat (r + 1) :: uint8) \<le> unat (10 :: uint8)" unfolding u using assms by simp
  then show "(of_nat (r + 1) :: uint8) \<le> 10" by (simp only: word_le_nat_alt)
qed

lemma adjust_up:
  fixes v :: uint8
  assumes "1 \<le> v" "v < 10"
  shows "1 \<le> v + 1" "v + 1 \<le> 10" "v XOR (v + 1) \<noteq> 0"
proof -
  have u: "unat v < 10" using assms(2) by (simp add: word_less_nat_alt)
  then have s: "unat (v + 1) = unat v + 1" by (simp add: unat_word_ariths)
  show "1 \<le> v + 1" using s by (simp add: word_le_nat_alt)
  show "v + 1 \<le> 10" using s u by (simp add: word_le_nat_alt)
  have "v + 1 \<noteq> v" by simp
  then show "v XOR (v + 1) \<noteq> 0" by (metis bit.xor_left_self xor.right_neutral)
qed

lemma adjust_down:
  fixes v :: uint8
  assumes "1 \<le> v" "v \<le> 10" "\<not> v < 10"
  shows "1 \<le> v - 1" "v - 1 \<le> 10" "v XOR (v - 1) \<noteq> 0"
proof -
  have "v = 10" using assms(2,3) by simp
  then show "1 \<le> v - 1" "v - 1 \<le> 10" "v XOR (v - 1) \<noteq> 0" by simp_all
qed


section \<open>The client's loop over its state\<close>

lemma isValidSuccessor_loop_step:
  assumes "idx < length state" "idx < length (slice_of (GameState move))"
  shows "isValidSuccessor_loop state move idx =
           (if (if int idx = sint (MoveRow move)
                then state ! idx - MoveCount move = slice_of (GameState move) ! idx
                else state ! idx = slice_of (GameState move) ! idx)
            then isValidSuccessor_loop state move (Suc idx) else Inr False)"
  using assms by (subst isValidSuccessor_loop.simps) (simp add: Let_def)

lemma isValidSuccessor_loop_end:
  assumes "idx < length state" "length (slice_of (GameState move)) \<le> idx"
  shows "isValidSuccessor_loop state move idx = Inl IndexOutOfRange"
  using assms by (subst isValidSuccessor_loop.simps) (simp add: Let_def)

lemma isValidSuccessor_loop_done:
  assumes "\<not> idx < length state"
  shows "isValidSuccessor_loop state move idx = Inr True"
  using assms by (subst isValidSuccessor_loop.simps) simp

lemma isValidSuccessor_loop_total:
  assumes "length state \<le> length (slice_of (GameState move))"
  shows "\<exists>b. isValidSuccessor_loop state move idx = Inr b"
proof (induction "length state - idx" arbitrary: idx)
  case 0
  then have "\<not> idx < length state" by simp
  then show ?case using isValidSuccessor_loop_done by blast
next
  case (Suc d)
  then have st: "idx < length state" by simp
  then have lt: "idx < length (slice_of (GameState move))" using assms by simp
  have "\<exists>b. isValidSuccessor_loop state move (Suc idx) = Inr b"
    using Suc.hyps(2) by (intro Suc.hyps(1)) simp
  then show ?case using isValidSuccessor_loop_step [OF st lt] by auto
qed

lemma isValidSuccessor_loop_panic_iff:
  assumes "length (slice_of (GameState move)) < length state"
    and "idx \<le> length (slice_of (GameState move))"
  shows "isValidSuccessor_loop state move idx = Inl IndexOutOfRange \<longleftrightarrow>
           (\<forall>k. idx \<le> k \<and> k < length (slice_of (GameState move)) \<longrightarrow>
              (if int k = sint (MoveRow move)
               then state ! k - MoveCount move = slice_of (GameState move) ! k
               else state ! k = slice_of (GameState move) ! k))"
  using assms(2)
proof (induction "length (slice_of (GameState move)) - idx" arbitrary: idx)
  case 0
  then have "idx = length (slice_of (GameState move))" by simp
  then show ?case using assms(1) by (auto simp: isValidSuccessor_loop_end)
next
  case (Suc d)
  let ?ok = "\<lambda>k. if int k = sint (MoveRow move)
               then state ! k - MoveCount move = slice_of (GameState move) ! k
               else state ! k = slice_of (GameState move) ! k"
  have lt: "idx < length (slice_of (GameState move))" using Suc.hyps(2) by simp
  then have st: "idx < length state" using assms(1) by simp
  have split: "(\<forall>k. idx \<le> k \<and> k < length (slice_of (GameState move)) \<longrightarrow> ?ok k) \<longleftrightarrow>
               ?ok idx \<and> (\<forall>k. Suc idx \<le> k \<and> k < length (slice_of (GameState move)) \<longrightarrow> ?ok k)"
    using lt by (rule all_from_split)
  show ?case
  proof (cases "?ok idx")
    case False
    then have "isValidSuccessor_loop state move idx = Inr False"
      using isValidSuccessor_loop_step [OF st lt] by simp
    then show ?thesis using False split by simp
  next
    case True
    then have "isValidSuccessor_loop state move idx = isValidSuccessor_loop state move (Suc idx)"
      using isValidSuccessor_loop_step [OF st lt] by simp
    moreover have "isValidSuccessor_loop state move (Suc idx) = Inl IndexOutOfRange \<longleftrightarrow>
        (\<forall>k. Suc idx \<le> k \<and> k < length (slice_of (GameState move)) \<longrightarrow> ?ok k)"
      using Suc.hyps(2) lt by (intro Suc.hyps(1)) simp_all
    ultimately show ?thesis using True split by simp
  qed
qed

lemma panicking_state:
  assumes "length (slice_of (GameState move)) < n"
  shows "\<exists>state. length state = n \<and> isValidSuccessor state move = Inl IndexOutOfRange"
proof -
  let ?gs = "slice_of (GameState move)"
  let ?f = "\<lambda>k. if int k = sint (MoveRow move) then ?gs ! k + MoveCount move else ?gs ! k"
  let ?st = "map ?f [0..<length ?gs] @ replicate (n - length ?gs) 0"
  have len: "length ?st = n" using assms by simp
  have nth: "?st ! k = ?f k" if "k < length ?gs" for k
    using that by (simp add: nth_append)
  have "\<forall>k. 0 \<le> k \<and> k < length ?gs \<longrightarrow>
          (if int k = sint (MoveRow move)
           then ?st ! k - MoveCount move = ?gs ! k else ?st ! k = ?gs ! k)"
    using nth by simp
  moreover have "length ?gs < length ?st" using assms len by simp
  ultimately have "isValidSuccessor_loop ?st move 0 = Inl IndexOutOfRange"
    using isValidSuccessor_loop_panic_iff [of move ?st 0] by blast
  then have "isValidSuccessor ?st move = Inl IndexOutOfRange"
    by (simp add: isValidSuccessor_def)
  then show ?thesis using len by blast
qed


section \<open>Claims\<close>




text \<open>
  C2. \<open>CheckMove\<close> returns false when the two boards differ in length, when the declared
  row is below 0 or not below the length, when two piles differ between the boards, and
  when a pile differs and its new count is not the old count minus the declared amount,
  for an amount above 0 and at most the old count.
\<close>

theorem CheckMove_rejects:
  assumes "length (slice_of (GameState previous)) \<noteq> length (slice_of (GameState proposed)) \<or>
     sint (MoveRow proposed) < 0 \<or>
     int (length (slice_of (GameState proposed))) \<le> sint (MoveRow proposed) \<or>
     (\<exists>i j. i < length (slice_of (GameState proposed)) \<and>
            j < length (slice_of (GameState proposed)) \<and> i \<noteq> j \<and>
            slice_of (GameState proposed) ! i \<noteq> slice_of (GameState previous) ! i \<and>
            slice_of (GameState proposed) ! j \<noteq> slice_of (GameState previous) ! j) \<or>
     (\<exists>i. i < length (slice_of (GameState proposed)) \<and>
          slice_of (GameState proposed) ! i \<noteq> slice_of (GameState previous) ! i \<and>
          \<not> (0 < sint (MoveCount proposed) \<and>
             sint (MoveCount proposed) \<le> uint (slice_of (GameState previous) ! i) \<and>
             uint (slice_of (GameState proposed) ! i) =
               uint (slice_of (GameState previous) ! i) - sint (MoveCount proposed)))"
  shows "\<not> CheckMove proposed previous"
proof
  assume ok: "CheckMove proposed previous"
  let ?inc = "slice_of (GameState proposed)" and ?last = "slice_of (GameState previous)"
  let ?cnt = "MoveCount proposed"
  have len: "length ?last = length ?inc"
    and row: "0 \<le> sint (MoveRow proposed)" "sint (MoveRow proposed) < int (length ?inc)"
    and piles: "\<And>k. k < length ?inc \<Longrightarrow> ?inc ! k = ?last ! k \<or>
        (int k = sint (MoveRow proposed) \<and> 0 < sint ?cnt \<and>
         sint ?cnt \<le> sint (?last ! k) \<and> ?inc ! k = ?last ! k - ?cnt)"
    using ok unfolding CheckMove_iff by blast+
  have two: "\<not> (\<exists>i j. i < length ?inc \<and> j < length ?inc \<and> i \<noteq> j \<and>
            ?inc ! i \<noteq> ?last ! i \<and> ?inc ! j \<noteq> ?last ! j)"
  proof
    assume "\<exists>i j. i < length ?inc \<and> j < length ?inc \<and> i \<noteq> j \<and>
            ?inc ! i \<noteq> ?last ! i \<and> ?inc ! j \<noteq> ?last ! j"
    then obtain i j where ij: "i < length ?inc" "j < length ?inc" "i \<noteq> j"
       "?inc ! i \<noteq> ?last ! i" "?inc ! j \<noteq> ?last ! j" by blast
    have "int i = sint (MoveRow proposed)" using piles [OF ij(1)] ij(4) by blast
    moreover have "int j = sint (MoveRow proposed)" using piles [OF ij(2)] ij(5) by blast
    ultimately show False using ij(3) by simp
  qed
  have amount: "\<not> (\<exists>i. i < length ?inc \<and> ?inc ! i \<noteq> ?last ! i \<and>
          \<not> (0 < sint ?cnt \<and> sint ?cnt \<le> uint (?last ! i) \<and>
             uint (?inc ! i) = uint (?last ! i) - sint ?cnt))"
  proof
    assume "\<exists>i. i < length ?inc \<and> ?inc ! i \<noteq> ?last ! i \<and>
          \<not> (0 < sint ?cnt \<and> sint ?cnt \<le> uint (?last ! i) \<and>
             uint (?inc ! i) = uint (?last ! i) - sint ?cnt)"
    then obtain i where i: "i < length ?inc" "?inc ! i \<noteq> ?last ! i"
       "\<not> (0 < sint ?cnt \<and> sint ?cnt \<le> uint (?last ! i) \<and>
             uint (?inc ! i) = uint (?last ! i) - sint ?cnt)" by blast
    have a: "0 < sint ?cnt" "sint ?cnt \<le> sint (?last ! i)" "?inc ! i = ?last ! i - ?cnt"
      using piles [OF i(1)] i(2) by blast+
    have "sint ?cnt = uint ?cnt" "uint ?cnt \<le> uint (?last ! i)"
         "uint (?last ! i - ?cnt) = uint (?last ! i) - uint ?cnt"
      using accepted_amount [OF a(1) a(2)] by blast+
    then show False using i(3) a(1) a(3) by simp
  qed
  have n1: "\<not> length ?last \<noteq> length ?inc" using len by simp
  have n2: "\<not> sint (MoveRow proposed) < 0" using row(1) by simp
  have n3: "\<not> int (length ?inc) \<le> sint (MoveRow proposed)" using row(2) by simp
  show False using assms n1 n2 n3 two amount by blast
qed

theorem CheckMove_rejects_witness:
  "\<not> CheckMove \<lparr>GameState = Some [1, 2], MoveRow = 0, MoveCount = 1\<rparr>
               \<lparr>GameState = Some [2, 2, 3], MoveRow = - 1, MoveCount = 5\<rparr> \<and>
   \<not> CheckMove \<lparr>GameState = Some [1, 2, 3], MoveRow = - 1, MoveCount = 1\<rparr>
               \<lparr>GameState = Some [2, 2, 3], MoveRow = - 1, MoveCount = 5\<rparr> \<and>
   \<not> CheckMove \<lparr>GameState = Some [1, 2, 3], MoveRow = 3, MoveCount = 1\<rparr>
               \<lparr>GameState = Some [2, 2, 3], MoveRow = - 1, MoveCount = 5\<rparr> \<and>
   \<not> CheckMove \<lparr>GameState = Some [1, 1, 3], MoveRow = 0, MoveCount = 1\<rparr>
               \<lparr>GameState = Some [2, 2, 3], MoveRow = - 1, MoveCount = 5\<rparr> \<and>
   \<not> CheckMove \<lparr>GameState = Some [1, 2, 3], MoveRow = 0, MoveCount = 2\<rparr>
               \<lparr>GameState = Some [2, 2, 3], MoveRow = - 1, MoveCount = 5\<rparr>"
proof -
  let ?prev = "\<lparr>GameState = Some [2, 2, 3], MoveRow = - 1, MoveCount = 5\<rparr>"
  have 1: "\<not> CheckMove \<lparr>GameState = Some [1, 2], MoveRow = 0, MoveCount = 1\<rparr> ?prev"
    by (rule CheckMove_rejects) (simp add: slice_of_def)
  have 2: "\<not> CheckMove \<lparr>GameState = Some [1, 2, 3], MoveRow = - 1, MoveCount = 1\<rparr> ?prev"
    by (rule CheckMove_rejects) (simp add: slice_of_def)
  have 3: "\<not> CheckMove \<lparr>GameState = Some [1, 2, 3], MoveRow = 3, MoveCount = 1\<rparr> ?prev"
    by (rule CheckMove_rejects) (simp add: slice_of_def)
  have "\<exists>i j. i < length [1, 1, 3 :: uint8] \<and> j < length [1, 1, 3 :: uint8] \<and> i \<noteq> j \<and>
          [1, 1, 3 :: uint8] ! i \<noteq> [2, 2, 3] ! i \<and> [1, 1, 3 :: uint8] ! j \<noteq> [2, 2, 3] ! j"
    by (rule exI [of _ 0], rule exI [of _ 1]) simp
  then have 4: "\<not> CheckMove \<lparr>GameState = Some [1, 1, 3], MoveRow = 0, MoveCount = 1\<rparr> ?prev"
    by (intro CheckMove_rejects) (simp add: slice_of_def)
  have "\<exists>i. i < length [1, 2, 3 :: uint8] \<and> [1, 2, 3 :: uint8] ! i \<noteq> [2, 2, 3] ! i \<and>
          \<not> (0 < sint (2 :: int8) \<and> sint (2 :: int8) \<le> uint ([2, 2, 3 :: uint8] ! i) \<and>
             uint ([1, 2, 3 :: uint8] ! i) = uint ([2, 2, 3 :: uint8] ! i) - sint (2 :: int8))"
    by (rule exI [of _ 0]) simp
  then have 5: "\<not> CheckMove \<lparr>GameState = Some [1, 2, 3], MoveRow = 0, MoveCount = 2\<rparr> ?prev"
    by (intro CheckMove_rejects) (simp add: slice_of_def)
  show ?thesis using 1 2 3 4 5 by simp
qed

text \<open>
  C3 (the code departs from it). A move whose board equals the previous board and whose row is
  in range passes \<open>CheckMove\<close> whatever its amount: the loop goes on at every pile that did
  not change and never looks at \<open>MoveCount\<close>. So a move with amount 0 or below is accepted.
\<close>

theorem CheckMove_accepts_unchanged_board:
  assumes "GameState incmove = GameState lastmove"
    and "0 \<le> sint (MoveRow incmove)"
    and "sint (MoveRow incmove) < int (length (slice_of (GameState incmove)))"
  shows "CheckMove incmove lastmove"
  using assms unfolding CheckMove_iff by simp

theorem CheckMove_accepts_unchanged_board_witness:
  "sint (- 1 :: int8) \<le> 0 \<and>
   CheckMove \<lparr>GameState = Some [3, 4, 5], MoveRow = 0, MoveCount = - 1\<rparr>
             \<lparr>GameState = Some [3, 4, 5], MoveRow = - 1, MoveCount = 5\<rparr>"
proof -
  have "CheckMove \<lparr>GameState = Some [3, 4, 5], MoveRow = 0, MoveCount = - 1\<rparr>
             \<lparr>GameState = Some [3, 4, 5], MoveRow = - 1, MoveCount = 5\<rparr>"
    by (rule CheckMove_accepts_unchanged_board) (simp_all add: slice_of_def)
  then show ?thesis by simp
qed

text \<open>
  C4. When the stored last message is the reply \<open>S = Play(m, d)\<close> to a move \<open>m\<close> that
  \<open>CheckMove\<close> had accepted, \<open>CheckMove\<close> rejects \<open>m\<close> against \<open>S\<close>; the handler replies with
  \<open>S\<close> and leaves both maps as they were.
\<close>

theorem duplicate_move_resends_reply:
  assumes "CheckMove m L0" and "Play m d = Inr S" and "clientGames st raddr = Some S"
  shows "\<not> CheckMove m S \<and> handle rnd st raddr m = Inr (st, Some S)"
proof -
  have r: "\<not> CheckMove m S" using assms(1,2) by (rule reply_rejects_its_move)
  have "\<not> (GameState m = None \<and> MoveRow m = - 1)"
    using assms(1) by (rule accepted_not_GameStart)
  then have "handle rnd st raddr m = Inr (st, Some S)"
    using assms(3) r by (intro handle_invalid)
  then show ?thesis using r by simp
qed

theorem duplicate_move_resends_reply_witness:
  "CheckMove \<lparr>GameState = Some [1, 4, 5], MoveRow = 0, MoveCount = 2\<rparr> sample_last \<and>
   Play \<lparr>GameState = Some [1, 4, 5], MoveRow = 0, MoveCount = 2\<rparr> 1 =
     Inr \<lparr>GameState = Some [0, 4, 5], MoveRow = 0, MoveCount = 1\<rparr> \<and>
   \<not> CheckMove \<lparr>GameState = Some [1, 4, 5], MoveRow = 0, MoveCount = 2\<rparr>
               \<lparr>GameState = Some [0, 4, 5], MoveRow = 0, MoveCount = 1\<rparr> \<and>
   handle sample_rand (sample_state \<lparr>GameState = Some [0, 4, 5], MoveRow = 0, MoveCount = 1\<rparr>)
       ''client'' \<lparr>GameState = Some [1, 4, 5], MoveRow = 0, MoveCount = 2\<rparr> =
     Inr (sample_state \<lparr>GameState = Some [0, 4, 5], MoveRow = 0, MoveCount = 1\<rparr>,
          Some \<lparr>GameState = Some [0, 4, 5], MoveRow = 0, MoveCount = 1\<rparr>)"
proof -
  let ?m = "\<lparr>GameState = Some [1, 4, 5], MoveRow = 0, MoveCount = 2\<rparr>"
  let ?S = "\<lparr>GameState = Some [0, 4, 5], MoveRow = 0, MoveCount = 1\<rparr>"
  have a: "CheckMove ?m sample_last"
    by (simp add: sample_last_def CheckMove_def CheckMove_loop.simps slice_of_def)
  have p: "Play ?m 1 = Inr ?S"
    by (simp add: Play_def slice_of_def bestMove_def nimSum_def normalMove_def
        normalMove_loop.simps)
  have s: "clientGames (sample_state ?S) ''client'' = Some ?S"
    by (simp add: sample_state_def)
  show ?thesis
    using a p duplicate_move_resends_reply [OF a p s, of sample_rand] by simp
qed

text \<open>
  C5 (as amended). In a session whose stored last message is \<open>L\<close>, every move other than the
  GameStart message that fails \<open>CheckMove\<close> against \<open>L\<close>, and so every such move whose row is
  out of range, gets \<open>L\<close> as the reply, and both maps stay as they were.
\<close>

theorem invalid_move_resends_last:
  assumes "clientGames st raddr = Some L"
    and "\<not> (GameState m = None \<and> MoveRow m = - 1)"
    and "\<not> CheckMove m L \<or> sint (MoveRow m) < 0 \<or>
         int (length (slice_of (GameState m))) \<le> sint (MoveRow m)"
  shows "handle rnd st raddr m = Inr (st, Some L)"
proof -
  have "\<not> CheckMove m L"
  proof
    assume ok: "CheckMove m L"
    then have row: "0 \<le> sint (MoveRow m)"
        "sint (MoveRow m) < int (length (slice_of (GameState m)))"
      unfolding CheckMove_iff by blast+
    have "sint (MoveRow m) < 0 \<or> int (length (slice_of (GameState m))) \<le> sint (MoveRow m)"
      using assms(3) ok by blast
    then show False using row by linarith
  qed
  then show ?thesis using assms(1,2) by (intro handle_invalid)
qed

theorem invalid_move_resends_last_witness:
  "handle sample_rand (sample_state sample_last) ''client''
       \<lparr>GameState = Some [3, 4, 4], MoveRow = 7, MoveCount = 1\<rparr> =
     Inr (sample_state sample_last, Some sample_last) \<and>
   handle sample_rand (sample_state sample_last) ''client''
       \<lparr>GameState = Some [3, 4, 4], MoveRow = - 1, MoveCount = 1\<rparr> =
     Inr (sample_state sample_last, Some sample_last) \<and>
   handle sample_rand (sample_state sample_last) ''client''
       \<lparr>GameState = Some [3, 3, 4], MoveRow = 1, MoveCount = 1\<rparr> =
     Inr (sample_state sample_last, Some sample_last)"
proof -
  have s: "clientGames (sample_state sample_last) ''client'' = Some sample_last"
    by (simp add: sample_state_def)
  have 1: "handle sample_rand (sample_state sample_last) ''client''
       \<lparr>GameState = Some [3, 4, 4], MoveRow = 7, MoveCount = 1\<rparr> =
     Inr (sample_state sample_last, Some sample_last)"
    by (rule invalid_move_resends_last [OF s]) (simp_all add: slice_of_def)
  have 2: "handle sample_rand (sample_state sample_last) ''client''
       \<lparr>GameState = Some [3, 4, 4], MoveRow = - 1, MoveCount = 1\<rparr> =
     Inr (sample_state sample_last, Some sample_last)"
    by (rule invalid_move_resends_last [OF s]) (simp_all add: slice_of_def)
  have "\<not> CheckMove \<lparr>GameState = Some [3, 3, 4], MoveRow = 1, MoveCount = 1\<rparr> sample_last"
    by (simp add: sample_last_def CheckMove_def CheckMove_loop.simps slice_of_def)
  then have 3: "handle sample_rand (sample_state sample_last) ''client''
       \<lparr>GameState = Some [3, 3, 4], MoveRow = 1, MoveCount = 1\<rparr> =
     Inr (sample_state sample_last, Some sample_last)"
    by (intro invalid_move_resends_last [OF s]) simp_all
  show ?thesis using 1 2 3 by simp
qed

text \<open>
  The GameStart message (no board, row -1) fails \<open>CheckMove\<close> against any \<open>L\<close> too, but the
  handler tests for it first: the session gets a new board and a new difficulty.
\<close>

theorem GameStart_replaces_session_counterexample:
  "clientGames (sample_state sample_last) ''client'' = Some sample_last \<and>
   clientDifficulties (sample_state sample_last) ''client'' = Some 1 \<and>
   \<not> CheckMove \<lparr>GameState = None, MoveRow = - 1, MoveCount = 4\<rparr> sample_last \<and>
   handle sample_rand (sample_state sample_last) ''client''
       \<lparr>GameState = None, MoveRow = - 1, MoveCount = 4\<rparr> =
     Inr ((sample_state sample_last)
            \<lparr>clientGames := (clientGames (sample_state sample_last))
               (''client'' \<mapsto> \<lparr>GameState = Some [8, 1, 4, 7, 10, 3, 6], MoveRow = - 1, MoveCount = 4\<rparr>),
             clientDifficulties := (clientDifficulties (sample_state sample_last))
               (''client'' \<mapsto> 0)\<rparr>,
          Some \<lparr>GameState = Some [8, 1, 4, 7, 10, 3, 6], MoveRow = - 1, MoveCount = 4\<rparr>) \<and>
   \<lparr>GameState = Some [8, 1, 4, 7, 10, 3, 6], MoveRow = - 1, MoveCount = 4\<rparr> \<noteq> sample_last"
proof -
  have g: "GenerateBoard sample_rand 4 = [8, 1, 4, 7, 10, 3, 6]" by code_simp
  have c: "\<not> CheckMove \<lparr>GameState = None, MoveRow = - 1, MoveCount = 4\<rparr> sample_last"
    by (simp add: CheckMove_def slice_of_def sample_last_def)
  have h: "handle sample_rand (sample_state sample_last) ''client''
       \<lparr>GameState = None, MoveRow = - 1, MoveCount = 4\<rparr> =
     Inr ((sample_state sample_last)
            \<lparr>clientGames := (clientGames (sample_state sample_last))
               (''client'' \<mapsto> \<lparr>GameState = Some [8, 1, 4, 7, 10, 3, 6], MoveRow = - 1, MoveCount = 4\<rparr>),
             clientDifficulties := (clientDifficulties (sample_state sample_last))
               (''client'' \<mapsto> 0)\<rparr>,
          Some \<lparr>GameState = Some [8, 1, 4, 7, 10, 3, 6], MoveRow = - 1, MoveCount = 4\<rparr>)"
    by (simp add: handle_def g Let_def)
  show ?thesis using c h by (simp add: sample_state_def sample_last_def)
qed




text \<open>
  C7. For every seed, with a generator whose \<open>Intn(n)\<close> stays below \<open>n\<close>, \<open>GenerateBoard\<close>
  returns between 3 and 16 piles, each between 1 and 10, and the nim-sum of the board is
  not 0: when the drawn board has nim-sum 0 the last pile goes up by one, or down by one
  from 10.
\<close>

theorem GenerateBoard_range:
  assumes "Intn_ok rnd seed"
  shows "3 \<le> length (GenerateBoard rnd seed) \<and> length (GenerateBoard rnd seed) \<le> 16 \<and>
         (\<forall>v \<in> set (GenerateBoard rnd seed). 1 \<le> v \<and> v \<le> 10) \<and>
         nimSum (GenerateBoard rnd seed) \<noteq> 0"
proof -
  define numRows where "numRows = rnd seed 0 14 + 3"
  define board where
    "board = GenerateBoard_fill rnd seed numRows (replicate numRows 0) 0"
  have intn: "rnd seed k n < n" if "0 < n" for k n
    using assms that unfolding Intn_ok_def by blast
  have "rnd seed 0 14 < 14" by (rule intn) simp
  then have rows: "3 \<le> numRows" "numRows \<le> 16"
    by (simp_all add: numRows_def)
  have len: "length board = numRows"
    by (simp add: board_def GenerateBoard_fill_length)
  have nth: "board ! k = of_nat (rnd seed (Suc k) 10 + 1)" if "k < numRows" for k
    using that by (simp add: board_def GenerateBoard_fill_nth)
  have draw: "rnd seed (Suc k) 10 < 10" for k
    by (rule intn) simp
  have piles: "1 \<le> board ! k \<and> board ! k \<le> 10" if "k < numRows" for k
    using coins_in_range [OF draw [of k]] nth [OF that] by simp
  let ?l = "numRows - 1"
  have l: "?l < numRows" using rows by simp
  have G: "GenerateBoard rnd seed =
      (if nimSum board = 0 then
        (if board ! ?l < 10 then board[?l := board ! ?l + 1] else board[?l := board ! ?l - 1])
       else board)"
    by (simp add: GenerateBoard_def Let_def numRows_def board_def)
  show ?thesis
  proof (cases "nimSum board = 0")
    case False
    then have "GenerateBoard rnd seed = board" using G by simp
    moreover have "\<forall>v \<in> set board. 1 \<le> v \<and> v \<le> 10"
      using piles len by (auto simp: in_set_conv_nth)
    ultimately show ?thesis using False len rows by simp
  next
    case True
    define w where "w = (if board ! ?l < 10 then board ! ?l + 1 else board ! ?l - 1)"
    have Gw: "GenerateBoard rnd seed = board[?l := w]" using G True by (simp add: w_def)
    have wr: "1 \<le> w \<and> w \<le> 10 \<and> board ! ?l XOR w \<noteq> 0"
      using piles [OF l] adjust_up [of "board ! ?l"] adjust_down [of "board ! ?l"]
      by (simp add: w_def)
    have "nimSum (board[?l := w]) = nimSum board XOR board ! ?l XOR w"
      using l len by (intro nimSum_update) simp
    then have ns: "nimSum (board[?l := w]) \<noteq> 0" using True wr by simp
    have "1 \<le> v \<and> v \<le> 10" if "v \<in> set (board[?l := w])" for v
    proof -
      have "\<exists>k < length (board[?l := w]). board[?l := w] ! k = v"
        using that by (simp only: in_set_conv_nth)
      then obtain k where k: "k < numRows" "v = board[?l := w] ! k"
        using len by auto
      show ?thesis
      proof (cases "k = ?l")
        case True then show ?thesis using k wr len by simp
      next
        case False then show ?thesis using k piles [OF k(1)] by simp
      qed
    qed
    then show ?thesis using Gw ns len rows by simp
  qed
qed

theorem GenerateBoard_range_witness:
  "Intn_ok sample_rand 2 \<and> GenerateBoard sample_rand 2 = [6, 9, 2, 5, 9] \<and>
   3 \<le> length (GenerateBoard sample_rand 2) \<and> length (GenerateBoard sample_rand 2) \<le> 16 \<and>
   nimSum (GenerateBoard sample_rand 2) \<noteq> 0"
proof -
  have h: "Intn_ok sample_rand 2" by (simp add: Intn_ok_def sample_rand_def)
  have g: "GenerateBoard sample_rand 2 = [6, 9, 2, 5, 9]" by code_simp
  show ?thesis using h g GenerateBoard_range [OF h] by simp
qed

text \<open>
  C8 (as amended). On a board whose nim-sum \<open>S\<close> is not 0, at least one pile index \<open>i\<close> has
  \<open>pile[i] XOR S \<le> pile[i]\<close>, and the search of \<open>bestMove\<close> never fails: it returns the move
  on the first such pile, the one with no qualifying pile before it.
\<close>

theorem first_candidate_exists:
  assumes "nimSum board \<noteq> 0"
  shows "\<exists>i < length board.
           board ! i XOR nimSum board \<le> board ! i \<and>
           (\<forall>k < i. \<not> board ! k XOR nimSum board \<le> board ! k) \<and>
           bestMove_loop (nimSum board) board 0 =
             Some \<lparr>GameState = Some (board[i := nimSum board XOR board ! i]),
                   MoveRow = of_nat i,
                   MoveCount = board ! i - (nimSum board XOR board ! i)\<rparr>"
proof -
  obtain i where i: "i < length board" "nimSum board XOR board ! i < board ! i"
    using candidate_exists [OF assms] by blast
  then have "nimSum board XOR board ! i \<le> board ! i" by simp
  then obtain j where j: "j < length board" "nimSum board XOR board ! j \<le> board ! j"
      "\<forall>k < j. \<not> nimSum board XOR board ! k \<le> board ! k"
    using first_index [of i "length board" "\<lambda>k. nimSum board XOR board ! k \<le> board ! k"] i(1)
    by blast
  have found: "bestMove_loop (nimSum board) board 0 =
             Some \<lparr>GameState = Some (board[j := nimSum board XOR board ! j]),
                   MoveRow = of_nat j,
                   MoveCount = board ! j - (nimSum board XOR board ! j)\<rparr>"
    using j by (intro bestMove_loop_found) auto
  have c: "board ! j XOR nimSum board \<le> board ! j"
    using j(2) by (simp add: xor.commute)
  have f: "\<forall>k < j. \<not> board ! k XOR nimSum board \<le> board ! k"
    using j(3) by (simp add: xor.commute)
  show ?thesis using j(1) c f found by blast
qed

theorem first_candidate_exists_witness:
  "nimSum [1, 1, 1] \<noteq> 0 \<and>
   [1, 1, 1] ! 0 XOR nimSum [1, 1, 1] \<le> ([1, 1, 1] ! 0 :: uint8) \<and>
   bestMove_loop (nimSum [1, 1, 1]) [1, 1, 1] 0 =
     Some \<lparr>GameState = Some [0, 1, 1], MoveRow = 0, MoveCount = 1\<rparr> \<and>
   (\<exists>i < length [1, 1, 1 :: uint8].
      bestMove_loop (nimSum [1, 1, 1]) [1, 1, 1] 0 =
        Some \<lparr>GameState = Some ([1, 1, 1][i := nimSum [1, 1, 1] XOR [1, 1, 1] ! i]),
              MoveRow = of_nat i,
              MoveCount = [1, 1, 1] ! i - (nimSum [1, 1, 1] XOR [1, 1, 1] ! i)\<rparr>)"
proof -
  have h: "nimSum [1, 1, 1] \<noteq> 0" by (simp add: nimSum_def)
  have e: "bestMove_loop (nimSum [1, 1, 1]) [1, 1, 1] 0 =
     Some \<lparr>GameState = Some [0, 1, 1], MoveRow = 0, MoveCount = 1\<rparr>"
    by (simp add: nimSum_def bestMove_loop.simps)
  have "\<exists>i < length [1, 1, 1 :: uint8].
      bestMove_loop (nimSum [1, 1, 1]) [1, 1, 1] 0 =
        Some \<lparr>GameState = Some ([1, 1, 1][i := nimSum [1, 1, 1] XOR [1, 1, 1] ! i]),
              MoveRow = of_nat i,
              MoveCount = [1, 1, 1] ! i - (nimSum [1, 1, 1] XOR [1, 1, 1] ! i)\<rparr>"
    using first_candidate_exists [OF h] by blast
  moreover have "[1, 1, 1] ! 0 XOR nimSum [1, 1, 1] \<le> ([1, 1, 1] ! 0 :: uint8)"
    by (simp add: nimSum_def)
  ultimately show ?thesis using h e by blast
qed

text \<open>
  The pile need not be the only one: on \<open>[1, 1, 1]\<close> the nim-sum is 1, and piles 0 and 1
  both qualify.
\<close>

theorem candidate_unique_counterexample:
  "nimSum [1, 1, 1] \<noteq> 0 \<and>
   [1, 1, 1] ! 0 XOR nimSum [1, 1, 1] \<le> ([1, 1, 1] ! 0 :: uint8) \<and>
   [1, 1, 1] ! 1 XOR nimSum [1, 1, 1] \<le> ([1, 1, 1] ! 1 :: uint8) \<and>
   (0 :: nat) \<noteq> 1 \<and> 0 < length [1, 1, 1 :: uint8] \<and> 1 < length [1, 1, 1 :: uint8]"
  by (simp add: nimSum_def)

text \<open>
  C9 (as amended). When the handler accepts a move \<open>m\<close> against the stored message \<open>L\<close> and
  the board of \<open>m\<close> has a pile above 0, the message it stores has a board of the same length
  as \<open>L\<close>'s, and no pile grows from \<open>L\<close> to \<open>m\<close> or from \<open>m\<close> to the stored message. When the
  board of \<open>m\<close> is all 0, the stored message is the resignation, which has no board.
\<close>

theorem accepted_move_transition:
  assumes "clientGames st raddr = Some L" and "CheckMove m L"
  shows "(emptyBoard (slice_of (GameState m)) \<longrightarrow>
            handle rnd st raddr m =
              Inr (st\<lparr>clientGames := (clientGames st)
                       (raddr \<mapsto> \<lparr>GameState = None, MoveRow = - 2, MoveCount = - 2\<rparr>)\<rparr>,
                   Some \<lparr>GameState = None, MoveRow = - 2, MoveCount = - 2\<rparr>)) \<and>
         (\<not> emptyBoard (slice_of (GameState m)) \<longrightarrow>
            (\<exists>S. handle rnd st raddr m =
                   Inr (st\<lparr>clientGames := (clientGames st)(raddr \<mapsto> S)\<rparr>, Some S) \<and>
                 length (slice_of (GameState S)) = length (slice_of (GameState L)) \<and>
                 (\<forall>k < length (slice_of (GameState L)).
                    slice_of (GameState S) ! k \<le> slice_of (GameState m) ! k \<and>
                    slice_of (GameState m) ! k \<le> slice_of (GameState L) ! k)))"
proof (intro conjI impI)
  assume "emptyBoard (slice_of (GameState m))"
  then have "Play m (difficulty_of st raddr) =
      Inr \<lparr>GameState = None, MoveRow = - 2, MoveCount = - 2\<rparr>"
    by (rule Play_resign)
  then show "handle rnd st raddr m =
              Inr (st\<lparr>clientGames := (clientGames st)
                       (raddr \<mapsto> \<lparr>GameState = None, MoveRow = - 2, MoveCount = - 2\<rparr>)\<rparr>,
                   Some \<lparr>GameState = None, MoveRow = - 2, MoveCount = - 2\<rparr>)"
    using assms by (intro handle_valid)
next
  assume ne: "\<not> emptyBoard (slice_of (GameState m))"
  let ?B = "slice_of (GameState m)"
  obtain j x where jx: "j < length ?B" "x < ?B ! j"
     "Play m (difficulty_of st raddr) =
        Inr \<lparr>GameState = Some (?B[j := x]), MoveRow = of_nat j, MoveCount = ?B ! j - x\<rparr>"
    using Play_shape [OF ne, of "difficulty_of st raddr"] by blast
  let ?S = "\<lparr>GameState = Some (?B[j := x]), MoveRow = of_nat j, MoveCount = ?B ! j - x\<rparr>"
  have h: "handle rnd st raddr m =
             Inr (st\<lparr>clientGames := (clientGames st)(raddr \<mapsto> ?S)\<rparr>, Some ?S)"
    using assms jx(3) by (intro handle_valid)
  have len: "length (slice_of (GameState L)) = length ?B"
    using assms(2) unfolding CheckMove_iff by blast
  then have l: "length (slice_of (GameState ?S)) = length (slice_of (GameState L))"
    by (simp add: slice_of_def)
  have p: "\<forall>k < length (slice_of (GameState L)).
             slice_of (GameState ?S) ! k \<le> ?B ! k \<and> ?B ! k \<le> slice_of (GameState L) ! k"
  proof (intro allI impI)
    fix k assume "k < length (slice_of (GameState L))"
    then have k: "k < length ?B" using len by simp
    have "(?B[j := x]) ! k \<le> ?B ! k"
      using jx(1,2) k by (cases "k = j") (simp_all add: less_imp_le)
    then have "slice_of (GameState ?S) ! k \<le> ?B ! k" by (simp add: slice_of_def)
    moreover have "?B ! k \<le> slice_of (GameState L) ! k"
      using assms(2) k by (rule accepted_pile_le)
    ultimately show "slice_of (GameState ?S) ! k \<le> ?B ! k \<and> ?B ! k \<le> slice_of (GameState L) ! k"
      by simp
  qed
  show "\<exists>S. handle rnd st raddr m =
                   Inr (st\<lparr>clientGames := (clientGames st)(raddr \<mapsto> S)\<rparr>, Some S) \<and>
                 length (slice_of (GameState S)) = length (slice_of (GameState L)) \<and>
                 (\<forall>k < length (slice_of (GameState L)).
                    slice_of (GameState S) ! k \<le> slice_of (GameState m) ! k \<and>
                    slice_of (GameState m) ! k \<le> slice_of (GameState L) ! k)"
    using h l p by blast
qed

theorem accepted_move_transition_witness:
  "CheckMove \<lparr>GameState = Some [1, 4, 5], MoveRow = 0, MoveCount = 2\<rparr> sample_last \<and>
   handle sample_rand (sample_state sample_last) ''client''
       \<lparr>GameState = Some [1, 4, 5], MoveRow = 0, MoveCount = 2\<rparr> =
     Inr ((sample_state sample_last)
            \<lparr>clientGames := (clientGames (sample_state sample_last))
               (''client'' \<mapsto> \<lparr>GameState = Some [0, 4, 5], MoveRow = 0, MoveCount = 1\<rparr>)\<rparr>,
          Some \<lparr>GameState = Some [0, 4, 5], MoveRow = 0, MoveCount = 1\<rparr>) \<and>
   (\<exists>S. handle sample_rand (sample_state sample_last) ''client''
            \<lparr>GameState = Some [1, 4, 5], MoveRow = 0, MoveCount = 2\<rparr> =
          Inr ((sample_state sample_last)
                 \<lparr>clientGames := (clientGames (sample_state sample_last))(''client'' \<mapsto> S)\<rparr>,
               Some S) \<and>
        length (slice_of (GameState S)) = length (slice_of (GameState sample_last)))"
proof -
  let ?m = "\<lparr>GameState = Some [1, 4, 5], MoveRow = 0, MoveCount = 2\<rparr>"
  let ?S = "\<lparr>GameState = Some [0, 4, 5], MoveRow = 0, MoveCount = 1\<rparr>"
  have s: "clientGames (sample_state sample_last) ''client'' = Some sample_last"
    by (simp add: sample_state_def)
  have a: "CheckMove ?m sample_last"
    by (simp add: sample_last_def CheckMove_def CheckMove_loop.simps slice_of_def)
  have ne: "\<not> emptyBoard (slice_of (GameState ?m))" by (simp add: slice_of_def)
  have p: "Play ?m (difficulty_of (sample_state sample_last) ''client'') = Inr ?S"
    by (simp add: Play_def slice_of_def bestMove_def nimSum_def normalMove_def
        normalMove_loop.simps difficulty_of_def sample_state_def)
  have h: "handle sample_rand (sample_state sample_last) ''client'' ?m =
     Inr ((sample_state sample_last)
            \<lparr>clientGames := (clientGames (sample_state sample_last))(''client'' \<mapsto> ?S)\<rparr>,
          Some ?S)"
    using s a p by (rule handle_valid)
  have "\<exists>S. handle sample_rand (sample_state sample_last) ''client'' ?m =
          Inr ((sample_state sample_last)
                 \<lparr>clientGames := (clientGames (sample_state sample_last))(''client'' \<mapsto> S)\<rparr>,
               Some S) \<and>
        length (slice_of (GameState S)) = length (slice_of (GameState sample_last))"
    using accepted_move_transition [OF s a, of sample_rand] ne by blast
  then show ?thesis using a h by blast
qed

text \<open>
  The client takes the last coin of \<open>[0, 0, 1]\<close>: the move is accepted, and the session then
  holds a message whose board has length 0, not 3.
\<close>

theorem resignation_drops_board_counterexample:
  "CheckMove \<lparr>GameState = Some [0, 0, 0], MoveRow = 2, MoveCount = 1\<rparr>
             \<lparr>GameState = Some [0, 0, 1], MoveRow = 2, MoveCount = 1\<rparr> \<and>
   handle sample_rand (sample_state \<lparr>GameState = Some [0, 0, 1], MoveRow = 2, MoveCount = 1\<rparr>)
       ''client'' \<lparr>GameState = Some [0, 0, 0], MoveRow = 2, MoveCount = 1\<rparr> =
     Inr ((sample_state \<lparr>GameState = Some [0, 0, 1], MoveRow = 2, MoveCount = 1\<rparr>)
            \<lparr>clientGames :=
               (clientGames (sample_state \<lparr>GameState = Some [0, 0, 1], MoveRow = 2, MoveCount = 1\<rparr>))
               (''client'' \<mapsto> \<lparr>GameState = None, MoveRow = - 2, MoveCount = - 2\<rparr>)\<rparr>,
          Some \<lparr>GameState = None, MoveRow = - 2, MoveCount = - 2\<rparr>) \<and>
   length (slice_of (GameState \<lparr>GameState = None, MoveRow = - 2, MoveCount = - 2\<rparr>)) = 0 \<and>
   length (slice_of (GameState \<lparr>GameState = Some [0, 0, 1], MoveRow = 2, MoveCount = 1\<rparr>)) = 3"
  by (simp add: handle_def sample_state_def CheckMove_def CheckMove_loop.simps slice_of_def
      Play_def difficulty_of_def)

text \<open>
  C10. \<open>isValidSuccessor\<close> returns without a panic whenever the reply's board is at least as
  long as the client's state. When the board is shorter, the read out of range is reached
  exactly when the reply agrees with the state on the whole of its board (elsewhere the
  function has returned false before), and for every reply and every length above its
  board's there is a client state of that length that reaches it.
\<close>

theorem isValidSuccessor_total_only_on_long_boards:
  "(length state \<le> length (slice_of (GameState move)) \<longrightarrow>
      (\<exists>b. isValidSuccessor state move = Inr b)) \<and>
   (length (slice_of (GameState move)) < length state \<longrightarrow>
      (isValidSuccessor state move = Inl IndexOutOfRange \<longleftrightarrow>
         (\<forall>k < length (slice_of (GameState move)).
            if int k = sint (MoveRow move)
            then state ! k - MoveCount move = slice_of (GameState move) ! k
            else state ! k = slice_of (GameState move) ! k))) \<and>
   (\<forall>n. length (slice_of (GameState move)) < n \<longrightarrow>
      (\<exists>state'. length state' = n \<and> isValidSuccessor state' move = Inl IndexOutOfRange))"
proof (intro conjI impI allI)
  assume "length state \<le> length (slice_of (GameState move))"
  then show "\<exists>b. isValidSuccessor state move = Inr b"
    unfolding isValidSuccessor_def by (rule isValidSuccessor_loop_total)
next
  assume "length (slice_of (GameState move)) < length state"
  then show "isValidSuccessor state move = Inl IndexOutOfRange \<longleftrightarrow>
         (\<forall>k < length (slice_of (GameState move)).
            if int k = sint (MoveRow move)
            then state ! k - MoveCount move = slice_of (GameState move) ! k
            else state ! k = slice_of (GameState move) ! k)"
    using isValidSuccessor_loop_panic_iff [of move state 0]
    by (simp add: isValidSuccessor_def)
next
  fix n assume "length (slice_of (GameState move)) < n"
  then show "\<exists>state'. length state' = n \<and> isValidSuccessor state' move = Inl IndexOutOfRange"
    by (rule panicking_state)
qed

theorem isValidSuccessor_total_only_on_long_boards_witness:
  "isValidSuccessor [3, 4, 5] \<lparr>GameState = Some [3, 3, 5], MoveRow = 1, MoveCount = 1\<rparr> = Inr True \<and>
   isValidSuccessor [3, 4, 5] \<lparr>GameState = Some [3, 3], MoveRow = 1, MoveCount = 1\<rparr> =
     Inl IndexOutOfRange \<and>
   isValidSuccessor [3, 4, 5] \<lparr>GameState = Some [3, 4], MoveRow = 1, MoveCount = 1\<rparr> = Inr False \<and>
   isValidSuccessor [3, 4, 5] \<lparr>GameState = None, MoveRow = - 2, MoveCount = - 2\<rparr> =
     Inl IndexOutOfRange"
proof -
  let ?short = "\<lparr>GameState = Some [3, 3], MoveRow = 1, MoveCount = 1\<rparr>"
  have "length (slice_of (GameState ?short)) < length [3, 4, 5 :: uint8]"
    by (simp add: slice_of_def)
  moreover have "\<forall>k < length (slice_of (GameState ?short)).
            if int k = sint (MoveRow ?short)
            then [3, 4, 5] ! k - MoveCount ?short = slice_of (GameState ?short) ! k
            else [3, 4, 5] ! k = slice_of (GameState ?short) ! k"
    by (simp add: slice_of_def less_Suc_eq)
  ultimately have p: "isValidSuccessor [3, 4, 5] ?short = Inl IndexOutOfRange"
    using isValidSuccessor_total_only_on_long_boards [of "[3, 4, 5]" ?short] by blast
  have t: "isValidSuccessor [3, 4, 5]
             \<lparr>GameState = Some [3, 3, 5], MoveRow = 1, MoveCount = 1\<rparr> = Inr True"
    by (simp add: isValidSuccessor_def isValidSuccessor_loop.simps slice_of_def)
  have f: "isValidSuccessor [3, 4, 5]
             \<lparr>GameState = Some [3, 4], MoveRow = 1, MoveCount = 1\<rparr> = Inr False"
    by (simp add: isValidSuccessor_def isValidSuccessor_loop.simps slice_of_def)
  have r: "isValidSuccessor [3, 4, 5] \<lparr>GameState = None, MoveRow = - 2, MoveCount = - 2\<rparr> =
     Inl IndexOutOfRange"
    by (simp add: isValidSuccessor_def isValidSuccessor_loop.simps slice_of_def)
  show ?thesis using p t f r by simp
qed

end
